theory Spec2Isabelle
  imports Main
begin

section \<open>Python lists as the game uses them\<close>

text \<open>
  The only exception the game logic of \<^verbatim>\<open>main.py\<close> can raise is the one of a list
  subscript that is out of range.  A subscript \<^verbatim>\<open>xs[i]\<close> accepts \<open>- len \<le> i < len\<close>; a negative
  index counts from the end of the list.
\<close>

datatype exn = IndexError

definition subscript :: "'a list \<Rightarrow> int \<Rightarrow> exn + 'a" where
  "subscript xs i =
     (if 0 \<le> i \<and> i < int (length xs) then Inr (xs ! nat i)
      else if i < 0 \<and> - int (length xs) \<le> i then Inr (xs ! nat (i + int (length xs)))
      else Inl IndexError)"

definition store_subscript :: "'a list \<Rightarrow> int \<Rightarrow> 'a \<Rightarrow> exn + 'a list" where
  "store_subscript xs i v =
     (if 0 \<le> i \<and> i < int (length xs) then Inr (xs[nat i := v])
      else if i < 0 \<and> - int (length xs) \<le> i then Inr (xs[nat (i + int (length xs)) := v])
      else Inl IndexError)"

text \<open>\<^verbatim>\<open>range(n)\<close>: the integers \<open>0, ..., n - 1\<close>, none when \<open>n \<le> 0\<close>.\<close>

definition range_py :: "int \<Rightarrow> int list" where
  "range_py n = [0..n - 1]"

section \<open>The game state\<close>

text \<open>
  The fields of \<^verbatim>\<open>GridGame\<close> that the game logic reads and writes.  The window, its
  size and the pixel size of a cell belong to the drawing code and are left out.
  \<open>grid_size_x\<close> is the number of columns, \<open>grid_size_y\<close> the number of rows.
\<close>

record GridGame =
  grid_size_x :: int
  grid_size_y :: int
  grid :: "int list list"
  counter :: int
  last_clicked :: "(int \<times> int) option"
  game_over :: bool
  max_possible_moves :: int

section \<open>\<^verbatim>\<open>calculate_max_moves\<close>\<close>

text \<open>
  The two local functions of \<^verbatim>\<open>calculate_max_moves\<close> close over \<^verbatim>\<open>self.grid_size_y\<close>
  and \<^verbatim>\<open>self.grid_size_x\<close>; here they take them as \<open>gy\<close> and \<open>gx\<close>.  The visited cells
  are a Python set, and \<^verbatim>\<open>len(visited)\<close> is its cardinality.
\<close>

definition get_valid_neighbors ::
  "int \<Rightarrow> int \<Rightarrow> int \<times> int \<Rightarrow> (int \<times> int) set \<Rightarrow> (int \<times> int) list" where
  "get_valid_neighbors gy gx pos visited =
     (case pos of (row, col) \<Rightarrow>
        let moves =
          [(row + 2, col + 1), (row + 2, col - 1), (row - 2, col + 1), (row - 2, col - 1),
           (row + 1, col + 2), (row + 1, col - 2), (row - 1, col + 2), (row - 1, col - 2)]
        in filter (\<lambda>(r, c). 0 \<le> r \<and> r < gy \<and> 0 \<le> c \<and> c < gx \<and> (r, c) \<notin> visited) moves)"

text \<open>
  \<^verbatim>\<open>min(neighbors, key=...)\<close> on a list that is not empty: the first element whose key is
  the least.  \<open>min_from key best xs\<close> is the scan with \<open>best\<close> the candidate so far; a
  later element replaces it only when its key is strictly smaller.
\<close>

fun min_from :: "('a \<Rightarrow> nat) \<Rightarrow> 'a \<Rightarrow> 'a list \<Rightarrow> 'a" where
  "min_from key best [] = best"
| "min_from key best (x # xs) =
     (if key x < key best then min_from key x xs else min_from key best xs)"

lemma min_from_mem: "min_from key b xs \<in> insert b (set xs)"
  by (induction xs arbitrary: b) (auto split: if_splits)

lemma get_valid_neighbors_mem:
  "q \<in> set (get_valid_neighbors gy gx pos visited) \<Longrightarrow>
     q \<in> ({0..<gy} \<times> {0..<gx}) - visited"
  by (cases pos) (auto simp: get_valid_neighbors_def Let_def simp del: filter.simps)

text \<open>
  The \<^verbatim>\<open>while True\<close> loop of \<^verbatim>\<open>warnsdorff_tour\<close>, from the state \<open>(visited, pos)\<close>.  The
  empty case of the list is the \<^verbatim>\<open>break\<close>; otherwise the list has a head and \<^verbatim>\<open>min\<close>
  cannot fail.  Every turn adds a cell of the grid that was not visited, which is why
  the loop ends.
\<close>

function warnsdorff_loop :: "int \<Rightarrow> int \<Rightarrow> (int \<times> int) set \<Rightarrow> int \<times> int \<Rightarrow> int" where
  "warnsdorff_loop gy gx visited pos =
     (case get_valid_neighbors gy gx pos visited of
        [] \<Rightarrow> int (card visited)
      | n # ns \<Rightarrow>
          let next_pos = min_from (\<lambda>x. length (get_valid_neighbors gy gx x visited)) n ns
          in warnsdorff_loop gy gx (insert next_pos visited) next_pos)"
  by pat_completeness auto
termination
proof (relation "measure (\<lambda>(gy, gx, visited, pos). card (({0..<gy} \<times> {0..<gx}) - visited))")
  show "wf (measure (\<lambda>(gy, gx, visited, pos). card (({0..<gy} \<times> {0..<gx}) - visited)))"
    by simp
next
  fix gy gx :: int and visited :: "(int \<times> int) set" and pos n :: "int \<times> int"
    and ns :: "(int \<times> int) list" and next_pos :: "int \<times> int"
  assume nb: "get_valid_neighbors gy gx pos visited = n # ns"
    and nx: "next_pos = min_from (\<lambda>x. length (get_valid_neighbors gy gx x visited)) n ns"
  have "next_pos \<in> set (get_valid_neighbors gy gx pos visited)"
    unfolding nb nx using min_from_mem [of _ n ns] by simp
  then have mem: "next_pos \<in> ({0..<gy} \<times> {0..<gx}) - visited"
    by (rule get_valid_neighbors_mem)
  have fin: "finite (({0..<gy} \<times> {0..<gx}) - visited)"
    by simp
  have "({0..<gy} \<times> {0..<gx}) - insert next_pos visited
          \<subset> ({0..<gy} \<times> {0..<gx}) - visited"
    using mem by blast
  then have "card (({0..<gy} \<times> {0..<gx}) - insert next_pos visited)
          < card (({0..<gy} \<times> {0..<gx}) - visited)"
    using fin by (rule psubset_card_mono [rotated])
  then show "((gy, gx, insert next_pos visited, next_pos), (gy, gx, visited, pos))
          \<in> measure (\<lambda>(gy, gx, visited, pos). card (({0..<gy} \<times> {0..<gx}) - visited))"
    by simp
qed

declare warnsdorff_loop.simps [simp del]

definition warnsdorff_tour :: "int \<Rightarrow> int \<Rightarrow> int \<times> int \<Rightarrow> int" where
  "warnsdorff_tour gy gx start_pos = warnsdorff_loop gy gx {start_pos} start_pos"

text \<open>
  The two \<^verbatim>\<open>for\<close> loops over the starting cells, with \<^verbatim>\<open>max_moves\<close> as the
  accumulator; it starts at 0.
\<close>

definition calculate_max_moves :: "int \<Rightarrow> int \<Rightarrow> int" where
  "calculate_max_moves gy gx =
     fold (\<lambda>i max_moves.
             fold (\<lambda>j max_moves. max max_moves (warnsdorff_tour gy gx (i, j)))
                  (range_py gx) max_moves)
          (range_py gy) 0"

section \<open>\<^verbatim>\<open>reset_game\<close>\<close>

text \<open>
  The list comprehension builds every row afresh, so no two rows are the same list and
  a later store into one row changes no other.
\<close>

definition reset_game :: "GridGame \<Rightarrow> GridGame" where
  "reset_game self =
     self\<lparr>grid := map (\<lambda>_. map (\<lambda>_. 0) (range_py (grid_size_x self)))
                       (range_py (grid_size_y self)),
          counter := 1,
          last_clicked := None,
          game_over := False,
          max_possible_moves := calculate_max_moves (grid_size_y self) (grid_size_x self)\<rparr>"

section \<open>\<^verbatim>\<open>is_valid_move\<close> and \<^verbatim>\<open>has_valid_moves\<close>\<close>

text \<open>
  \<^verbatim>\<open>and\<close> evaluates its right operand only when the left one is true, so the grid is
  read only for a knight displacement.
\<close>

definition is_valid_move :: "GridGame \<Rightarrow> int \<Rightarrow> int \<Rightarrow> exn + bool" where
  "is_valid_move self row col =
     (case last_clicked self of
        None \<Rightarrow> Inr True
      | Some (last_row, last_col) \<Rightarrow>
          let row_diff = \<bar>row - last_row\<bar>; col_diff = \<bar>col - last_col\<bar> in
          if (row_diff = 2 \<and> col_diff = 1) \<or> (row_diff = 1 \<and> col_diff = 2)
          then (case subscript (grid self) row of
                  Inl e \<Rightarrow> Inl e
                | Inr r \<Rightarrow> (case subscript r col of
                              Inl e \<Rightarrow> Inl e
                            | Inr v \<Rightarrow> Inr (v = 0)))
          else Inr False)"

text \<open>
  The inner loop over the columns \<open>js\<close> of row \<open>i\<close>: \<open>Inr True\<close> is the early
  \<^verbatim>\<open>return True\<close>, \<open>Inr False\<close> means that the loop ran to its end.
\<close>

fun scan_cols :: "int list list \<Rightarrow> int \<Rightarrow> int \<Rightarrow> int \<Rightarrow> int list \<Rightarrow> exn + bool" where
  "scan_cols g last_row last_col i [] = Inr False"
| "scan_cols g last_row last_col i (j # js) =
     (case subscript g i of
        Inl e \<Rightarrow> Inl e
      | Inr r \<Rightarrow>
          (case subscript r j of
             Inl e \<Rightarrow> Inl e
           | Inr v \<Rightarrow>
               if v = 0 \<and>
                  (let row_diff = \<bar>i - last_row\<bar>; col_diff = \<bar>j - last_col\<bar>
                   in (row_diff = 2 \<and> col_diff = 1) \<or> (row_diff = 1 \<and> col_diff = 2))
               then Inr True
               else scan_cols g last_row last_col i js))"

fun scan_rows :: "int list list \<Rightarrow> int \<Rightarrow> int \<Rightarrow> int list \<Rightarrow> int list \<Rightarrow> exn + bool" where
  "scan_rows g last_row last_col cols [] = Inr False"
| "scan_rows g last_row last_col cols (i # is) =
     (case scan_cols g last_row last_col i cols of
        Inl e \<Rightarrow> Inl e
      | Inr True \<Rightarrow> Inr True
      | Inr False \<Rightarrow> scan_rows g last_row last_col cols is)"

definition has_valid_moves :: "GridGame \<Rightarrow> exn + bool" where
  "has_valid_moves self =
     (case last_clicked self of
        None \<Rightarrow> Inr True
      | Some (last_row, last_col) \<Rightarrow>
          scan_rows (grid self) last_row last_col
            (range_py (grid_size_x self)) (range_py (grid_size_y self)))"

section \<open>A click on a cell\<close>

text \<open>
  The \<^verbatim>\<open>MOUSEBUTTONDOWN\<close> branch of \<^verbatim>\<open>run\<close>, for the cell \<open>(row, col)\<close> that
  \<^verbatim>\<open>get_cell_position\<close> returned.  The result holds the state after the event and
  whether the click was accepted, that is, whether the body of the inner \<^verbatim>\<open>if\<close> ran.
  \<^verbatim>\<open>self.grid[row][col] = self.counter\<close> reads the row and stores into it.
\<close>

definition apply_move :: "GridGame \<Rightarrow> int \<times> int \<Rightarrow> exn + (GridGame \<times> bool)" where
  "apply_move self pos =
     (case pos of (row, col) \<Rightarrow>
        if game_over self then Inr (self, False)
        else if 0 \<le> row \<and> row < grid_size_y self \<and> 0 \<le> col \<and> col < grid_size_x self
        then (case is_valid_move self row col of
                Inl e \<Rightarrow> Inl e
              | Inr False \<Rightarrow> Inr (self, False)
              | Inr True \<Rightarrow>
                  (case subscript (grid self) row of
                     Inl e \<Rightarrow> Inl e
                   | Inr r \<Rightarrow>
                       (case store_subscript r col (counter self) of
                          Inl e \<Rightarrow> Inl e
                        | Inr r' \<Rightarrow>
                            (case store_subscript (grid self) row r' of
                               Inl e \<Rightarrow> Inl e
                             | Inr g' \<Rightarrow>
                                 let self1 = self\<lparr>grid := g',
                                                   counter := counter self + 1,
                                                   last_clicked := Some (row, col)\<rparr>
                                 in (case has_valid_moves self1 of
                                       Inl e \<Rightarrow> Inl e
                                     | Inr True \<Rightarrow> Inr (self1, True)
                                     | Inr False \<Rightarrow>
                                         Inr (self1\<lparr>game_over := True\<rparr>, True))))))
        else Inr (self, False))"

text \<open>
  \<^verbatim>\<open>__init__\<close>: a grid of 10 rows and 5 columns, then \<^verbatim>\<open>reset_game\<close>.  The other
  fields do not exist before \<^verbatim>\<open>reset_game\<close> runs, and it assigns every one of them; the
  values written for them here are never read.
\<close>

definition init_game :: GridGame where
  "init_game =
     reset_game \<lparr>grid_size_x = 5, grid_size_y = 10, grid = [], counter = 0,
                 last_clicked = None, game_over = False, max_possible_moves = 0\<rparr>"

section \<open>Notions used to state the properties\<close>

text \<open>
  The bounds test that \<^verbatim>\<open>run\<close> makes before it calls \<^verbatim>\<open>is_valid_move\<close>.
\<close>

definition in_bounds :: "GridGame \<Rightarrow> int \<times> int \<Rightarrow> bool" where
  "in_bounds self pos =
     (case pos of (row, col) \<Rightarrow>
        0 \<le> row \<and> row < grid_size_y self \<and> 0 \<le> col \<and> col < grid_size_x self)"

text \<open>
  The content of a cell of a grid that has the declared shape, for a position in bounds.
\<close>

definition cell :: "GridGame \<Rightarrow> int \<times> int \<Rightarrow> int" where
  "cell self pos = (case pos of (row, col) \<Rightarrow> grid self ! nat row ! nat col)"

text \<open>
  The displacement from \<open>p\<close> to \<open>q\<close> is that of a chess knight: \<open>(2, 1)\<close> or \<open>(1, 2)\<close> in
  absolute value.
\<close>

definition knight_displacement :: "int \<times> int \<Rightarrow> int \<times> int \<Rightarrow> bool" where
  "knight_displacement p q =
     (case (p, q) of ((r1, c1), (r2, c2)) \<Rightarrow> (\<bar>r2 - r1\<bar>, \<bar>c2 - c1\<bar>) \<in> {(2, 1), (1, 2)})"

text \<open>
  The grid has \<open>grid_size_y\<close> rows of \<open>grid_size_x\<close> cells each.
\<close>

definition well_formed :: "GridGame \<Rightarrow> bool" where
  "well_formed self \<longleftrightarrow>
     length (grid self) = nat (grid_size_y self) \<and>
     (\<forall>r \<in> set (grid self). length r = nat (grid_size_x self))"

text \<open>
  The state after the three assignments of an accepted click, and the same state after
  the test that ends the game.
\<close>

definition placed :: "GridGame \<Rightarrow> int \<times> int \<Rightarrow> GridGame" where
  "placed s pos =
     (case pos of (row, col) \<Rightarrow>
        s\<lparr>grid := (grid s)[nat row := (grid s ! nat row)[nat col := counter s]],
          counter := counter s + 1,
          last_clicked := Some (row, col)\<rparr>)"

definition finished :: "GridGame \<Rightarrow> GridGame" where
  "finished s1 = (if has_valid_moves s1 = Inr False then s1\<lparr>game_over := True\<rparr> else s1)"

text \<open>
  \<open>reachable_after k s\<close>: the game can be in state \<open>s\<close>, and \<open>k\<close> clicks were accepted
  since the last \<^verbatim>\<open>reset_game\<close>.  A reset may come from any state whatever, so that
  every size of grid is covered.
\<close>

inductive reachable_after :: "nat \<Rightarrow> GridGame \<Rightarrow> bool" where
  fresh: "reachable_after 0 (reset_game s0)"
| accepted: "reachable_after k s \<Longrightarrow> apply_move s pos = Inr (s', True) \<Longrightarrow>
     reachable_after (Suc k) s'"
| rejected: "reachable_after k s \<Longrightarrow> apply_move s pos = Inr (s', False) \<Longrightarrow>
     reachable_after k s'"

text \<open>
  What holds of the grid in every such state.
\<close>

definition game_inv :: "nat \<Rightarrow> GridGame \<Rightarrow> bool" where
  "game_inv k s \<longleftrightarrow>
     well_formed s \<and>
     counter s = int k + 1 \<and>
     (case last_clicked s of
        None \<Rightarrow> k = 0
      | Some p \<Rightarrow> in_bounds s p \<and> cell s p = int k) \<and>
     (\<forall>p. in_bounds s p \<longrightarrow> 0 \<le> cell s p \<and> cell s p \<le> int k) \<and>
     (\<forall>v. 1 \<le> v \<and> v \<le> int k \<longrightarrow> (\<exists>p. in_bounds s p \<and> cell s p = v)) \<and>
     (\<forall>p q. in_bounds s p \<and> in_bounds s q \<and> cell s p = cell s q \<and> cell s p \<noteq> 0
        \<longrightarrow> p = q) \<and>
     max_possible_moves s = calculate_max_moves (grid_size_y s) (grid_size_x s)"

text \<open>
  A game on a grid of one cell, to run the functions on.
\<close>

definition tiny_game :: GridGame where
  "tiny_game =
     reset_game \<lparr>grid_size_x = 1, grid_size_y = 1, grid = [], counter = 0,
                 last_clicked = None, game_over = False, max_possible_moves = 0\<rparr>"

section \<open>The Warnsdorff procedure as the specification words it\<close>

text \<open>
  The eight knight offsets, \<open>2\<close> and \<open>1\<close> in either order and with either sign.
\<close>

definition spec_knight_offsets :: "(int \<times> int) set" where
  "spec_knight_offsets =
     {(2, 1), (2, - 1), (- 2, 1), (- 2, - 1), (1, 2), (1, - 2), (- 1, 2), (- 1, - 2)}"

text \<open>
  The knight-neighbors of \<open>cur\<close> that are in bounds and not visited.
\<close>

definition spec_unvisited_neighbors ::
  "int \<Rightarrow> int \<Rightarrow> (int \<times> int) set \<Rightarrow> int \<times> int \<Rightarrow> (int \<times> int) set" where
  "spec_unvisited_neighbors rows cols visited cur =
     {q \<in> (\<lambda>(dr, dc). (fst cur + dr, snd cur + dc)) ` spec_knight_offsets.
        0 \<le> fst q \<and> fst q < rows \<and> 0 \<le> snd q \<and> snd q < cols \<and> q \<notin> visited}"

text \<open>
  \<open>spec_warnsdorff_run rows cols visited cur len\<close>: the procedure, continued from the
  visited set \<open>visited\<close> and the current position \<open>cur\<close>, can end with a tour of length
  \<open>len\<close>.  It stops when \<open>cur\<close> has no unvisited neighbor in bounds, and the length is
  then the size of the visited set; otherwise it moves to an unvisited neighbor that has
  the fewest unvisited neighbors of its own, and adds it to the visited set.  The words
  leave the choice among equals open, so this is a relation.
\<close>

inductive spec_warnsdorff_run ::
  "int \<Rightarrow> int \<Rightarrow> (int \<times> int) set \<Rightarrow> int \<times> int \<Rightarrow> nat \<Rightarrow> bool"
  for rows cols :: int where
  stop: "spec_unvisited_neighbors rows cols visited cur = {} \<Longrightarrow>
     spec_warnsdorff_run rows cols visited cur (card visited)"
| move: "n \<in> spec_unvisited_neighbors rows cols visited cur \<Longrightarrow>
     \<forall>m \<in> spec_unvisited_neighbors rows cols visited cur.
        card (spec_unvisited_neighbors rows cols visited n)
          \<le> card (spec_unvisited_neighbors rows cols visited m) \<Longrightarrow>
     spec_warnsdorff_run rows cols (insert n visited) n len \<Longrightarrow>
     spec_warnsdorff_run rows cols visited cur len"

section \<open>Reading and writing a grid of the declared shape\<close>

lemma subscript_in_range:
  "0 \<le> i \<Longrightarrow> i < int (length xs) \<Longrightarrow> subscript xs i = Inr (xs ! nat i)"
  by (simp add: subscript_def)

lemma store_subscript_in_range:
  "0 \<le> i \<Longrightarrow> i < int (length xs) \<Longrightarrow> store_subscript xs i v = Inr (xs[nat i := v])"
  by (simp add: store_subscript_def)

lemma read_row:
  assumes "well_formed s" "0 \<le> row" "row < grid_size_y s"
  shows "subscript (grid s) row = Inr (grid s ! nat row)"
    and "length (grid s ! nat row) = nat (grid_size_x s)"
proof -
  from assms have lt: "nat row < length (grid s)"
    by (simp add: well_formed_def)
  with assms show "subscript (grid s) row = Inr (grid s ! nat row)"
    by (simp add: subscript_in_range)
  from lt have "grid s ! nat row \<in> set (grid s)" by simp
  with assms show "length (grid s ! nat row) = nat (grid_size_x s)"
    by (simp add: well_formed_def)
qed

lemma read_cell:
  assumes "well_formed s" "in_bounds s (row, col)"
  shows "subscript (grid s) row = Inr (grid s ! nat row)"
    and "subscript (grid s ! nat row) col = Inr (cell s (row, col))"
proof -
  from assms have b: "0 \<le> row" "row < grid_size_y s" "0 \<le> col" "col < grid_size_x s"
    by (simp_all add: in_bounds_def)
  show "subscript (grid s) row = Inr (grid s ! nat row)"
    using assms(1) b(1,2) by (rule read_row)
  have "length (grid s ! nat row) = nat (grid_size_x s)"
    using assms(1) b(1,2) by (rule read_row)
  with b show "subscript (grid s ! nat row) col = Inr (cell s (row, col))"
    by (simp add: subscript_in_range cell_def)
qed

lemma is_valid_move_first: "last_clicked s = None \<Longrightarrow> is_valid_move s row col = Inr True"
  by (simp add: is_valid_move_def)

lemma is_valid_move_no_knight:
  "last_clicked s = Some l \<Longrightarrow> \<not> knight_displacement l (row, col) \<Longrightarrow>
     is_valid_move s row col = Inr False"
  by (cases l) (auto simp: is_valid_move_def knight_displacement_def Let_def)

lemma is_valid_move_inside:
  assumes "well_formed s" "in_bounds s (row, col)" "last_clicked s = Some l"
  shows "is_valid_move s row col =
           Inr (cell s (row, col) = 0 \<and> knight_displacement l (row, col))"
proof (cases "knight_displacement l (row, col)")
  case False
  with assms(3) show ?thesis by (simp add: is_valid_move_no_knight)
next
  case True
  then show ?thesis
    using assms(3) read_cell [OF assms(1,2)]
    by (cases l) (auto simp: is_valid_move_def knight_displacement_def Let_def)
qed

lemma scan_cols_result:
  assumes "well_formed s" "0 \<le> i" "i < grid_size_y s"
    and "\<forall>j \<in> set js. 0 \<le> j \<and> j < grid_size_x s"
  shows "scan_cols (grid s) lr lc i js =
           Inr (\<exists>j \<in> set js. cell s (i, j) = 0 \<and> knight_displacement (lr, lc) (i, j))"
  using assms(4)
proof (induction js)
  case Nil
  then show ?case by simp
next
  case (Cons j js)
  then have "in_bounds s (i, j)"
    using assms(2,3) by (simp add: in_bounds_def)
  from read_cell [OF assms(1) this] Cons show ?case
    by (auto simp: knight_displacement_def Let_def)
qed

lemma scan_rows_result:
  assumes "well_formed s"
    and "\<forall>j \<in> set js. 0 \<le> j \<and> j < grid_size_x s"
    and "\<forall>i \<in> set is. 0 \<le> i \<and> i < grid_size_y s"
  shows "scan_rows (grid s) lr lc js is =
           Inr (\<exists>i \<in> set is. \<exists>j \<in> set js.
                  cell s (i, j) = 0 \<and> knight_displacement (lr, lc) (i, j))"
  using assms(3)
proof (induction "is")
  case Nil
  then show ?case by simp
next
  case (Cons i "is")
  then have "0 \<le> i" "i < grid_size_y s" by simp_all
  from scan_cols_result [OF assms(1) this assms(2), of lr lc] Cons show ?case
    by (auto split: bool.splits)
qed

lemma set_range_py: "set (range_py n) = {0..<n}"
  by (auto simp: range_py_def)

lemma has_valid_moves_result:
  assumes "well_formed s"
  shows "has_valid_moves s =
           Inr (case last_clicked s of
                  None \<Rightarrow> True
                | Some l \<Rightarrow> \<exists>p. in_bounds s p \<and> cell s p = 0 \<and> knight_displacement l p)"
proof (cases "last_clicked s")
  case None
  then show ?thesis by (simp add: has_valid_moves_def)
next
  case (Some l)
  obtain lr lc where l: "l = (lr, lc)" by (cases l)
  have "scan_rows (grid s) lr lc (range_py (grid_size_x s)) (range_py (grid_size_y s)) =
          Inr (\<exists>i \<in> set (range_py (grid_size_y s)). \<exists>j \<in> set (range_py (grid_size_x s)).
                 cell s (i, j) = 0 \<and> knight_displacement (lr, lc) (i, j))"
    by (rule scan_rows_result [OF assms]) (simp_all add: set_range_py)
  also have "(\<exists>i \<in> set (range_py (grid_size_y s)). \<exists>j \<in> set (range_py (grid_size_x s)).
                 cell s (i, j) = 0 \<and> knight_displacement (lr, lc) (i, j))
           \<longleftrightarrow> (\<exists>p. in_bounds s p \<and> cell s p = 0 \<and> knight_displacement l p)"
    unfolding set_range_py in_bounds_def l
    by (simp only: split_paired_Ex prod.case atLeastLessThan_iff Bex_def) blast
  finally show ?thesis
    using Some by (simp add: has_valid_moves_def l)
qed

lemma placed_fields [simp]:
  "grid_size_x (placed s pos) = grid_size_x s"
  "grid_size_y (placed s pos) = grid_size_y s"
  "counter (placed s pos) = counter s + 1"
  "last_clicked (placed s pos) = Some pos"
  "game_over (placed s pos) = game_over s"
  "max_possible_moves (placed s pos) = max_possible_moves s"
  by (cases pos; simp add: placed_def)+

lemma in_bounds_placed [simp]: "in_bounds (placed s pos) q = in_bounds s q"
  by (simp add: in_bounds_def)

lemma well_formed_placed: "well_formed s \<Longrightarrow> well_formed (placed s pos)"
proof -
  assume wf: "well_formed s"
  obtain row col where pos: "pos = (row, col)" by (cases pos)
  show ?thesis
    unfolding well_formed_def
  proof (intro conjI ballI)
    show "length (grid (placed s pos)) = nat (grid_size_y (placed s pos))"
      using wf by (simp add: placed_def pos well_formed_def)
  next
    fix r assume "r \<in> set (grid (placed s pos))"
    then have "r \<in> insert ((grid s ! nat row)[nat col := counter s]) (set (grid s))"
      using set_update_subset_insert [of "grid s" "nat row"]
      by (auto simp: placed_def pos)
    then consider "r = (grid s ! nat row)[nat col := counter s]" | "r \<in> set (grid s)"
      by blast
    then show "length r = nat (grid_size_x (placed s pos))"
    proof cases
      case 1
      show ?thesis
      proof (cases "nat row < length (grid s)")
        case True
        then have "grid s ! nat row \<in> set (grid s)" by simp
        with wf 1 show ?thesis by (simp add: well_formed_def)
      next
        case False
        then have "length (grid s) \<le> nat row" by simp
        then have "grid (placed s pos) = grid s"
          by (simp add: placed_def pos list_update_beyond)
        with \<open>r \<in> set (grid (placed s pos))\<close> wf show ?thesis
          by (simp add: well_formed_def)
      qed
    next
      case 2
      with wf show ?thesis by (simp add: well_formed_def)
    qed
  qed
qed

lemma cell_placed:
  assumes "well_formed s" "in_bounds s pos" "in_bounds s q"
  shows "cell (placed s pos) q = (if q = pos then counter s else cell s q)"
proof -
  obtain row col where pos: "pos = (row, col)" by (cases pos)
  obtain r c where q: "q = (r, c)" by (cases q)
  from assms have b: "0 \<le> row" "row < grid_size_y s" "0 \<le> col" "col < grid_size_x s"
    "0 \<le> r" "r < grid_size_y s" "0 \<le> c" "c < grid_size_x s"
    by (simp_all add: in_bounds_def pos q)
  have len: "nat row < length (grid s)" "nat r < length (grid s)"
    using assms(1) b by (simp_all add: well_formed_def)
  have "length (grid s ! nat row) = nat (grid_size_x s)"
    using assms(1) b(1,2) by (rule read_row)
  then have lenc: "nat col < length (grid s ! nat row)" "nat c < length (grid s ! nat row)"
    using b by simp_all
  have eqr: "nat r = nat row \<longleftrightarrow> r = row" and eqc: "nat c = nat col \<longleftrightarrow> c = col"
    using b by auto
  show ?thesis
    using len lenc eqr eqc
    by (auto simp: cell_def placed_def pos q nth_list_update)
qed

lemma has_valid_moves_game_over [simp]:
  "has_valid_moves (s\<lparr>game_over := b\<rparr>) = has_valid_moves s"
  by (simp add: has_valid_moves_def split: option.splits)

lemma apply_move_rejected:
  "game_over s \<or> \<not> in_bounds s pos \<or> is_valid_move s (fst pos) (snd pos) = Inr False \<Longrightarrow>
     apply_move s pos = Inr (s, False)"
  by (cases pos) (auto simp: apply_move_def in_bounds_def)

lemma apply_move_accepted:
  assumes "well_formed s" "\<not> game_over s" "in_bounds s pos"
    and "is_valid_move s (fst pos) (snd pos) = Inr True"
  shows "apply_move s pos = Inr (finished (placed s pos), True)"
proof -
  obtain row col where pos: "pos = (row, col)" by (cases pos)
  from assms(3) have b: "0 \<le> row" "row < grid_size_y s" "0 \<le> col" "col < grid_size_x s"
    by (simp_all add: in_bounds_def pos)
  have r1: "subscript (grid s) row = Inr (grid s ! nat row)"
    and r2: "length (grid s ! nat row) = nat (grid_size_x s)"
    using read_row [OF assms(1) b(1,2)] by simp_all
  have w1: "store_subscript (grid s ! nat row) col (counter s) =
              Inr ((grid s ! nat row)[nat col := counter s])"
    using b r2 by (simp add: store_subscript_in_range)
  have w2: "store_subscript (grid s) row ((grid s ! nat row)[nat col := counter s]) =
              Inr ((grid s)[nat row := (grid s ! nat row)[nat col := counter s]])"
    using b assms(1) by (simp add: store_subscript_in_range well_formed_def)
  have wf: "well_formed (placed s pos)"
    using assms(1) by (rule well_formed_placed)
  obtain h where h: "has_valid_moves (placed s pos) = Inr h"
    using has_valid_moves_result [OF wf] by blast
  have pl: "s\<lparr>grid := (grid s)[nat row := (grid s ! nat row)[nat col := counter s]],
              counter := counter s + 1, last_clicked := Some (row, col)\<rparr> = placed s pos"
    by (simp add: placed_def pos)
  show ?thesis
    using assms(2,4) b r1 w1 w2 h
    by (simp add: apply_move_def pos pl finished_def Let_def)
qed

lemma apply_move_cases:
  assumes "well_formed s"
  shows "apply_move s pos = Inr (s, False) \<or>
         (\<not> game_over s \<and> in_bounds s pos \<and> is_valid_move s (fst pos) (snd pos) = Inr True \<and>
          apply_move s pos = Inr (finished (placed s pos), True))"
proof (cases "game_over s \<or> \<not> in_bounds s pos")
  case True
  then show ?thesis using apply_move_rejected [of s pos] by blast
next
  case False
  then have ib: "in_bounds s pos" and go: "\<not> game_over s" by simp_all
  obtain row col where pos: "pos = (row, col)" by (cases pos)
  have "\<exists>b. is_valid_move s (fst pos) (snd pos) = Inr b"
  proof (cases "last_clicked s")
    case None
    then show ?thesis using is_valid_move_first [of s "fst pos" "snd pos"] by blast
  next
    case (Some l)
    from is_valid_move_inside [OF assms _ Some, of row col] ib show ?thesis
      by (simp add: pos)
  qed
  then obtain b where b: "is_valid_move s (fst pos) (snd pos) = Inr b" ..
  show ?thesis
  proof (cases b)
    case True
    with b apply_move_accepted [OF assms go ib] go ib show ?thesis by simp
  next
    case False
    with b show ?thesis by (simp add: apply_move_rejected)
  qed
qed

lemma length_range_py: "length (range_py n) = nat n"
  by (simp add: range_py_def)

lemma grid_reset_game:
  "grid (reset_game s) = replicate (nat (grid_size_y s)) (replicate (nat (grid_size_x s)) 0)"
  by (simp add: reset_game_def map_replicate_const length_range_py)

lemma reset_game_fields [simp]:
  "grid_size_x (reset_game s) = grid_size_x s"
  "grid_size_y (reset_game s) = grid_size_y s"
  "counter (reset_game s) = 1"
  "last_clicked (reset_game s) = None"
  "game_over (reset_game s) = False"
  "max_possible_moves (reset_game s) = calculate_max_moves (grid_size_y s) (grid_size_x s)"
  by (simp_all add: reset_game_def)

lemma in_bounds_reset_game [simp]: "in_bounds (reset_game s) p = in_bounds s p"
  by (simp add: in_bounds_def)

lemma well_formed_reset_game: "well_formed (reset_game s)"
  by (simp add: well_formed_def grid_reset_game)

lemma cell_reset_game: "in_bounds s p \<Longrightarrow> cell (reset_game s) p = 0"
  by (cases p) (simp add: cell_def grid_reset_game in_bounds_def)

lemma game_inv_reset: "game_inv 0 (reset_game s0)"
  unfolding game_inv_def
  by (intro conjI allI impI) (auto simp: well_formed_reset_game cell_reset_game)

lemma game_inv_range: "game_inv k s \<Longrightarrow> in_bounds s p \<Longrightarrow> 0 \<le> cell s p \<and> cell s p \<le> int k"
  unfolding game_inv_def by blast

lemma game_inv_onto:
  "game_inv k s \<Longrightarrow> 1 \<le> v \<Longrightarrow> v \<le> int k \<Longrightarrow> \<exists>p. in_bounds s p \<and> cell s p = v"
  unfolding game_inv_def by blast

lemma game_inv_once:
  "game_inv k s \<Longrightarrow> in_bounds s p \<Longrightarrow> in_bounds s q \<Longrightarrow> cell s p = cell s q \<Longrightarrow>
     cell s p \<noteq> 0 \<Longrightarrow> p = q"
  unfolding game_inv_def by blast

lemma game_over_update_views [simp]:
  "in_bounds (s\<lparr>game_over := b\<rparr>) p = in_bounds s p"
  "cell (s\<lparr>game_over := b\<rparr>) p = cell s p"
  "well_formed (s\<lparr>game_over := b\<rparr>) = well_formed s"
  by (simp_all add: in_bounds_def cell_def well_formed_def)

lemma game_inv_game_over: "game_inv k (s\<lparr>game_over := b\<rparr>) = game_inv k s"
  unfolding game_inv_def game_over_update_views by simp

lemma game_inv_finished: "game_inv k s \<Longrightarrow> game_inv k (finished s)"
  unfolding finished_def by (simp only: game_inv_game_over if_split) simp

lemma valid_target_empty:
  assumes "game_inv k s" "in_bounds s pos"
    and "is_valid_move s (fst pos) (snd pos) = Inr True"
  shows "cell s pos = 0"
proof (cases "last_clicked s")
  case None
  with assms(1) have "k = 0" by (simp add: game_inv_def)
  with game_inv_range [OF assms(1,2)] show ?thesis by simp
next
  case (Some l)
  from assms(1) have wf: "well_formed s" by (simp add: game_inv_def)
  from assms(2) have ib: "in_bounds s (fst pos, snd pos)" by simp
  have "Inr True = (Inr (cell s (fst pos, snd pos) = 0 \<and>
          knight_displacement l (fst pos, snd pos)) :: exn + bool)"
    using trans [OF assms(3) [symmetric] is_valid_move_inside [OF wf ib Some]] .
  then show ?thesis by simp
qed

lemma game_inv_placed:
  assumes inv: "game_inv k s" and ib: "in_bounds s pos"
    and ok: "is_valid_move s (fst pos) (snd pos) = Inr True"
  shows "game_inv (Suc k) (placed s pos)"
proof -
  from inv have wf: "well_formed s" and cnt: "counter s = int k + 1"
    and mx: "max_possible_moves s = calculate_max_moves (grid_size_y s) (grid_size_x s)"
    by (simp_all add: game_inv_def)
  note rng = game_inv_range [OF inv] and ex = game_inv_onto [OF inv]
    and inj = game_inv_once [OF inv]
  have empty: "cell s pos = 0"
    using inv ib ok by (rule valid_target_empty)
  have cp: "\<And>q. in_bounds s q \<Longrightarrow>
              cell (placed s pos) q = (if q = pos then int k + 1 else cell s q)"
    using cell_placed [OF wf ib] cnt by simp
  have i1: "well_formed (placed s pos)"
    using wf by (rule well_formed_placed)
  have i2: "counter (placed s pos) = int (Suc k) + 1"
    using cnt by simp
  have i3: "in_bounds (placed s pos) pos \<and> cell (placed s pos) pos = int (Suc k)"
    using ib cp [OF ib] by simp
  have i4: "\<forall>p. in_bounds (placed s pos) p \<longrightarrow>
             0 \<le> cell (placed s pos) p \<and> cell (placed s pos) p \<le> int (Suc k)"
  proof (intro allI impI)
    fix p assume "in_bounds (placed s pos) p"
    then have p: "in_bounds s p" by simp
    from rng [OF p] cp [OF p]
    show "0 \<le> cell (placed s pos) p \<and> cell (placed s pos) p \<le> int (Suc k)"
      by (simp split: if_splits)
  qed
  have i5: "\<forall>v. 1 \<le> v \<and> v \<le> int (Suc k) \<longrightarrow>
             (\<exists>p. in_bounds (placed s pos) p \<and> cell (placed s pos) p = v)"
  proof (intro allI impI)
    fix v :: int assume v: "1 \<le> v \<and> v \<le> int (Suc k)"
    show "\<exists>p. in_bounds (placed s pos) p \<and> cell (placed s pos) p = v"
    proof (cases "v = int k + 1")
      case True
      with i3 show ?thesis by (intro exI [of _ pos]) simp
    next
      case False
      with v have "1 \<le> v" "v \<le> int k" by simp_all
      from ex [OF this] obtain p where p: "in_bounds s p" "cell s p = v" by blast
      with empty v have "p \<noteq> pos" by auto
      with p cp [OF p(1)] show ?thesis by (intro exI [of _ p]) simp
    qed
  qed
  have i6: "\<forall>p q. in_bounds (placed s pos) p \<and> in_bounds (placed s pos) q \<and>
             cell (placed s pos) p = cell (placed s pos) q \<and> cell (placed s pos) p \<noteq> 0
             \<longrightarrow> p = q"
  proof (intro allI impI)
    fix p q
    assume h: "in_bounds (placed s pos) p \<and> in_bounds (placed s pos) q \<and>
             cell (placed s pos) p = cell (placed s pos) q \<and> cell (placed s pos) p \<noteq> 0"
    then have p: "in_bounds s p" and q: "in_bounds s q" by simp_all
    from h have eq: "cell (placed s pos) p = cell (placed s pos) q"
      and nz: "cell (placed s pos) p \<noteq> 0" by simp_all
    show "p = q"
    proof (cases "p = pos")
      case True
      show ?thesis
      proof (rule ccontr)
        assume "p \<noteq> q"
        with True eq cp [OF p] cp [OF q] have "cell s q = int k + 1" by simp
        with rng [OF q] show False by simp
      qed
    next
      case False
      show ?thesis
      proof (cases "q = pos")
        case True
        with False eq cp [OF p] cp [OF q] have "cell s p = int k + 1" by simp
        with rng [OF p] show ?thesis by simp
      next
        case qf: False
        with False eq nz cp [OF p] cp [OF q] have "cell s p = cell s q" "cell s p \<noteq> 0"
          by simp_all
        with inj [OF p q] show ?thesis by simp
      qed
    qed
  qed
  have i7: "max_possible_moves (placed s pos) =
             calculate_max_moves (grid_size_y (placed s pos)) (grid_size_x (placed s pos))"
    using mx by simp
  have i3c: "case last_clicked (placed s pos) of
              None \<Rightarrow> Suc k = 0
            | Some p \<Rightarrow> in_bounds (placed s pos) p \<and> cell (placed s pos) p = int (Suc k)"
    using i3 by simp
  show ?thesis
    unfolding game_inv_def by (intro conjI i1 i2 i3c i4 i5 i6 i7)
qed

lemma game_inv_apply_move:
  assumes "game_inv k s" "apply_move s pos = Inr (s', acc)"
  shows "game_inv (if acc then Suc k else k) s'"
proof -
  from assms(1) have wf: "well_formed s" by (simp add: game_inv_def)
  from apply_move_cases [OF wf, of pos] show ?thesis
  proof
    assume r: "apply_move s pos = Inr (s, False)"
    from trans [OF r [symmetric] assms(2)] have "s' = s" "acc = False" by simp_all
    with assms(1) show ?thesis by simp
  next
    assume a: "\<not> game_over s \<and> in_bounds s pos \<and>
        is_valid_move s (fst pos) (snd pos) = Inr True \<and>
        apply_move s pos = Inr (finished (placed s pos), True)"
    then have "game_inv (Suc k) (finished (placed s pos))"
      using assms(1) by (intro game_inv_finished game_inv_placed) simp_all
    moreover from a have r: "apply_move s pos = Inr (finished (placed s pos), True)" by simp
    from trans [OF r [symmetric] assms(2)] have "s' = finished (placed s pos)" "acc = True"
      by simp_all
    ultimately show ?thesis by simp
  qed
qed

lemma reachable_after_inv: "reachable_after k s \<Longrightarrow> game_inv k s"
proof (induction rule: reachable_after.induct)
  case (fresh s0)
  show ?case by (rule game_inv_reset)
next
  case (accepted k s pos s')
  from game_inv_apply_move [OF accepted.IH accepted.hyps(2)] show ?case by simp
next
  case (rejected k s pos s')
  from game_inv_apply_move [OF rejected.IH rejected.hyps(2)] show ?case by simp
qed

lemmas run_defs =
  init_game_def tiny_game_def reset_game_def range_py_def apply_move_def is_valid_move_def
  subscript_def store_subscript_def has_valid_moves_def placed_def finished_def
  in_bounds_def cell_def well_formed_def knight_displacement_def

lemma apply_move_Inr:
  assumes "apply_move s pos = Inr (s', acc)"
  shows "(s' = s \<and> \<not> acc) \<or>
         (acc \<and> \<not> game_over s \<and> in_bounds s pos \<and>
          is_valid_move s (fst pos) (snd pos) = Inr True \<and>
          (\<exists>g'. (has_valid_moves (s\<lparr>grid := g', counter := counter s + 1,
                                      last_clicked := Some pos\<rparr>) = Inr True \<and>
                  s' = s\<lparr>grid := g', counter := counter s + 1, last_clicked := Some pos\<rparr>) \<or>
                 (has_valid_moves (s\<lparr>grid := g', counter := counter s + 1,
                                      last_clicked := Some pos\<rparr>) = Inr False \<and>
                  s' = s\<lparr>grid := g', counter := counter s + 1, last_clicked := Some pos,
                         game_over := True\<rparr>)))"
  using assms
  by (cases pos)
     (auto simp: apply_move_def in_bounds_def Let_def
           split: if_splits sum.splits bool.splits)

lemma first_click_0_0: "apply_move init_game (0, 0) = Inr (placed init_game (0, 0), True)"
  by (simp add: run_defs upto_rec1)

lemma apply_move_total:
  assumes "well_formed s"
  shows "\<exists>s' acc. apply_move s pos = Inr (s', acc) \<and>
           counter s' = (if acc then counter s + 1 else counter s)"
proof -
  from apply_move_cases [OF assms, of pos] show ?thesis
  proof
    assume "apply_move s pos = Inr (s, False)"
    then show ?thesis by (intro exI [of _ s] exI [of _ False]) simp
  next
    assume a: "\<not> game_over s \<and> in_bounds s pos \<and>
        is_valid_move s (fst pos) (snd pos) = Inr True \<and>
        apply_move s pos = Inr (finished (placed s pos), True)"
    have "counter (finished (placed s pos)) = counter s + 1"
      by (simp add: finished_def)
    with a show ?thesis
      by (intro exI [of _ "finished (placed s pos)"] exI [of _ True]) simp
  qed
qed

lemma reachable_first_click: "reachable_after (Suc 0) (placed init_game (0, 0))"
  unfolding init_game_def
  by (rule reachable_after.accepted [OF reachable_after.fresh])
     (rule first_click_0_0 [unfolded init_game_def])

lemma second_click_2_1:
  "apply_move (placed init_game (0, 0)) (2, 1) =
     Inr (placed (placed init_game (0, 0)) (2, 1), True)"
  by (simp add: run_defs upto_rec1)

lemma reachable_second_click:
  "reachable_after (Suc (Suc 0)) (placed (placed init_game (0, 0)) (2, 1))"
  by (rule reachable_after.accepted [OF reachable_first_click second_click_2_1])

lemma accepted_iff:
  assumes wf: "well_formed s" and go: "\<not> game_over s"
  shows "(\<exists>s'. apply_move s pos = Inr (s', True)) \<longleftrightarrow>
           in_bounds s pos \<and> is_valid_move s (fst pos) (snd pos) = Inr True"
proof
  assume "\<exists>s'. apply_move s pos = Inr (s', True)"
  then obtain s' where "apply_move s pos = Inr (s', True)" ..
  from apply_move_Inr [OF this]
  show "in_bounds s pos \<and> is_valid_move s (fst pos) (snd pos) = Inr True" by simp
next
  assume "in_bounds s pos \<and> is_valid_move s (fst pos) (snd pos) = Inr True"
  then have "apply_move s pos = Inr (finished (placed s pos), True)"
    using apply_move_accepted [OF wf go] by simp
  then show "\<exists>s'. apply_move s pos = Inr (s', True)" ..
qed

lemma well_formed_first_click: "well_formed (placed init_game pos)"
  by (intro well_formed_placed) (simp add: init_game_def well_formed_reset_game)

section \<open>The tour of the code is a tour of the procedure\<close>

lemma set_get_valid_neighbors:
  "set (get_valid_neighbors gy gx pos visited) = spec_unvisited_neighbors gy gx visited pos"
  by (cases pos)
     (auto simp: get_valid_neighbors_def spec_unvisited_neighbors_def spec_knight_offsets_def Let_def
           simp del: filter.simps)

lemma distinct_get_valid_neighbors: "distinct (get_valid_neighbors gy gx pos visited)"
proof -
  obtain row col where pos: "pos = (row, col)" by (cases pos)
  have "distinct [(row + 2, col + 1), (row + 2, col - 1), (row - 2, col + 1),
                  (row - 2, col - 1), (row + 1, col + 2), (row + 1, col - 2),
                  (row - 1, col + 2), (row - 1, col - 2)]"
    by simp
  then show ?thesis
    unfolding get_valid_neighbors_def pos prod.case Let_def by (rule distinct_filter)
qed

lemma length_get_valid_neighbors:
  "length (get_valid_neighbors gy gx pos visited) = card (spec_unvisited_neighbors gy gx visited pos)"
  using distinct_card [OF distinct_get_valid_neighbors, of gy gx pos visited]
  by (simp add: set_get_valid_neighbors)

lemma min_from_least: "y \<in> insert b (set xs) \<Longrightarrow> key (min_from key b xs) \<le> key y"
proof (induction xs arbitrary: b y)
  case Nil
  then show ?case by simp
next
  case (Cons x xs)
  show ?case
  proof (cases "key x < key b")
    case True
    have "key (min_from key x xs) \<le> key x" by (rule Cons.IH) simp
    moreover have "y \<in> insert x (set xs) \<Longrightarrow> key (min_from key x xs) \<le> key y"
      by (rule Cons.IH)
    ultimately show ?thesis using Cons.prems True by auto
  next
    case False
    have "key (min_from key b xs) \<le> key b" by (rule Cons.IH) simp
    moreover have "y \<in> insert b (set xs) \<Longrightarrow> key (min_from key b xs) \<le> key y"
      by (rule Cons.IH)
    ultimately show ?thesis using Cons.prems False by auto
  qed
qed

lemma warnsdorff_loop_run:
  "\<exists>len. spec_warnsdorff_run gy gx visited pos len \<and> warnsdorff_loop gy gx visited pos = int len"
proof (induction gy gx visited pos rule: warnsdorff_loop.induct)
  case (1 gy gx visited pos)
  show ?case
  proof (cases "get_valid_neighbors gy gx pos visited")
    case Nil
    then have "spec_unvisited_neighbors gy gx visited pos = {}"
      using set_get_valid_neighbors [of gy gx pos visited] by simp
    then have "spec_warnsdorff_run gy gx visited pos (card visited)"
      by (rule spec_warnsdorff_run.stop)
    moreover have "warnsdorff_loop gy gx visited pos = int (card visited)"
      using Nil by (subst warnsdorff_loop.simps) simp
    ultimately show ?thesis by blast
  next
    case (Cons n ns)
    define next_pos where
      "next_pos = min_from (\<lambda>x. length (get_valid_neighbors gy gx x visited)) n ns"
    have nb: "set (n # ns) = spec_unvisited_neighbors gy gx visited pos"
      using set_get_valid_neighbors [of gy gx pos visited] Cons by simp
    have "next_pos \<in> set (n # ns)"
      using min_from_mem [of "\<lambda>x. length (get_valid_neighbors gy gx x visited)" n ns]
      by (simp add: next_pos_def)
    then have mem: "next_pos \<in> spec_unvisited_neighbors gy gx visited pos"
      unfolding nb .
    have least: "\<forall>m \<in> spec_unvisited_neighbors gy gx visited pos.
        card (spec_unvisited_neighbors gy gx visited next_pos)
          \<le> card (spec_unvisited_neighbors gy gx visited m)"
    proof
      fix m assume "m \<in> spec_unvisited_neighbors gy gx visited pos"
      then have "m \<in> insert n (set ns)" using nb by simp
      from min_from_least [OF this, of "\<lambda>x. length (get_valid_neighbors gy gx x visited)"]
      show "card (spec_unvisited_neighbors gy gx visited next_pos)
          \<le> card (spec_unvisited_neighbors gy gx visited m)"
        by (simp add: next_pos_def length_get_valid_neighbors)
    qed
    from "1.IH" [OF Cons next_pos_def]
    obtain len where run: "spec_warnsdorff_run gy gx (insert next_pos visited) next_pos len"
      and eq: "warnsdorff_loop gy gx (insert next_pos visited) next_pos = int len"
      by blast
    have "spec_warnsdorff_run gy gx visited pos len"
      using mem least run by (rule spec_warnsdorff_run.move)
    moreover have "warnsdorff_loop gy gx visited pos = int len"
      using Cons eq by (subst warnsdorff_loop.simps) (simp add: next_pos_def Let_def)
    ultimately show ?thesis by blast
  qed
qed

lemma warnsdorff_loop_lower:
  "finite visited \<Longrightarrow> int (card visited) \<le> warnsdorff_loop gy gx visited pos"
proof (induction gy gx visited pos rule: warnsdorff_loop.induct)
  case (1 gy gx visited pos)
  show ?case
  proof (cases "get_valid_neighbors gy gx pos visited")
    case Nil
    then show ?thesis by (subst warnsdorff_loop.simps) simp
  next
    case (Cons n ns)
    define next_pos where
      "next_pos = min_from (\<lambda>x. length (get_valid_neighbors gy gx x visited)) n ns"
    from "1.prems" have "finite (insert next_pos visited)" by simp
    from "1.IH" [OF Cons next_pos_def this]
    have "int (card (insert next_pos visited))
            \<le> warnsdorff_loop gy gx (insert next_pos visited) next_pos" .
    moreover have "card visited \<le> card (insert next_pos visited)"
      using "1.prems" by (simp add: card_insert_le)
    moreover have "warnsdorff_loop gy gx visited pos =
        warnsdorff_loop gy gx (insert next_pos visited) next_pos"
      using Cons by (subst warnsdorff_loop.simps) (simp add: next_pos_def Let_def)
    ultimately show ?thesis by simp
  qed
qed

lemma warnsdorff_tour_positive: "1 \<le> warnsdorff_tour gy gx start_pos"
  using warnsdorff_loop_lower [of "{start_pos}" gy gx start_pos]
  by (simp add: warnsdorff_tour_def)

lemma Max_insert_Max:
  fixes m :: int
  assumes "finite A" "finite B"
  shows "Max (insert (Max (insert m A)) B) = Max (insert m (A \<union> B))"
proof (cases "B = {}")
  case True
  then show ?thesis by simp
next
  case False
  have "Max (insert (Max (insert m A)) B) = max (Max (insert m A)) (Max B)"
    using assms(2) False by (rule Max_insert)
  also have "\<dots> = Max (insert m A \<union> B)"
    by (rule Max_Un [symmetric]) (use assms False in simp_all)
  finally show ?thesis by simp
qed

lemma fold_max_cols:
  fixes m0 :: int
  shows "fold (\<lambda>j max_moves. max max_moves (f j)) js m0 = Max (insert m0 (f ` set js))"
proof (induction js arbitrary: m0)
  case Nil
  show ?case by simp
next
  case (Cons j js)
  have "fold (\<lambda>j max_moves. max max_moves (f j)) (j # js) m0 =
          Max (insert (max m0 (f j)) (f ` set js))"
    by (simp add: Cons.IH)
  also have "max m0 (f j) = Max (insert m0 {f j})"
    by (simp add: max.commute)
  also have "Max (insert (Max (insert m0 {f j})) (f ` set js)) =
          Max (insert m0 ({f j} \<union> f ` set js))"
    by (rule Max_insert_Max) simp_all
  finally show ?case by simp
qed

lemma fold_max_rows:
  fixes m0 :: int
  shows "fold (\<lambda>i max_moves. fold (\<lambda>j max_moves. max max_moves (f (i, j))) js max_moves) is m0 =
           Max (insert m0 (f ` (set is \<times> set js)))"
proof (induction "is" arbitrary: m0)
  case Nil
  show ?case by simp
next
  case (Cons i "is")
  have img: "f ` (set (i # is) \<times> set js) = (\<lambda>j. f (i, j)) ` set js \<union> f ` (set is \<times> set js)"
    by auto
  have "fold (\<lambda>i max_moves. fold (\<lambda>j max_moves. max max_moves (f (i, j))) js max_moves)
          (i # is) m0 =
        Max (insert (Max (insert m0 ((\<lambda>j. f (i, j)) ` set js))) (f ` (set is \<times> set js)))"
    by (simp add: Cons.IH fold_max_cols [of "\<lambda>j. f (i, j)"])
  also have "\<dots> = Max (insert m0 ((\<lambda>j. f (i, j)) ` set js \<union> f ` (set is \<times> set js)))"
    by (rule Max_insert_Max) simp_all
  finally show ?case by (simp only: img)
qed

lemma calculate_max_moves_Max:
  assumes "1 \<le> gy" "1 \<le> gx"
  shows "calculate_max_moves gy gx = Max (warnsdorff_tour gy gx ` ({0..<gy} \<times> {0..<gx}))"
proof -
  let ?S = "warnsdorff_tour gy gx ` ({0..<gy} \<times> {0..<gx})"
  have fin: "finite ?S" by simp
  have ne: "?S \<noteq> {}" using assms by simp
  have "calculate_max_moves gy gx = Max (insert 0 ?S)"
    unfolding calculate_max_moves_def
    by (simp add: fold_max_rows [of "warnsdorff_tour gy gx"] set_range_py)
  also have "\<dots> = max 0 (Max ?S)"
    using fin ne by (rule Max_insert)
  finally have eq: "calculate_max_moves gy gx = max 0 (Max ?S)" .
  have "(0, 0) \<in> {0..<gy} \<times> {0..<gx}" using assms by simp
  then have "warnsdorff_tour gy gx (0, 0) \<in> ?S" by (rule imageI)
  with fin have "warnsdorff_tour gy gx (0, 0) \<le> Max ?S" by (rule Max_ge)
  with warnsdorff_tour_positive [of gy gx "(0, 0)"] have "1 \<le> Max ?S" by simp
  with eq show ?thesis by simp
qed

lemma tour_1_2: "calculate_max_moves 1 2 = 1"
  by (simp add: calculate_max_moves_def range_py_def upto_rec1 warnsdorff_tour_def
        warnsdorff_loop.simps get_valid_neighbors_def)

lemma tour_3_3: "calculate_max_moves 3 3 = 8"
  by code_simp

section \<open>Rejected clicks\<close>

text \<open>
  C3.  A click that is rejected leaves the whole state as it was: the grid, the counter,
  the last clicked cell and the game-over flag.  A click is rejected when the game is
  over, when the cell is out of bounds and when \<^verbatim>\<open>is_valid_move\<close> answers False; so a
  game that is over takes no further move.
\<close>

theorem rejected_move_changes_nothing:
  "(game_over s \<or> \<not> in_bounds s pos \<or> is_valid_move s (fst pos) (snd pos) = Inr False
      \<longrightarrow> apply_move s pos = Inr (s, False)) \<and>
   (\<forall>s'. apply_move s pos = Inr (s', False) \<longrightarrow> s' = s)"
proof (intro conjI impI allI)
  assume "game_over s \<or> \<not> in_bounds s pos \<or> is_valid_move s (fst pos) (snd pos) = Inr False"
  then show "apply_move s pos = Inr (s, False)" by (rule apply_move_rejected)
next
  fix s' assume "apply_move s pos = Inr (s', False)"
  from apply_move_Inr [OF this] show "s' = s" by simp
qed

theorem rejected_move_changes_nothing_witness:
  "is_valid_move (placed init_game (0, 0)) 1 1 = Inr False \<and>
   apply_move (placed init_game (0, 0)) (1, 1) = Inr (placed init_game (0, 0), False) \<and>
   counter (placed init_game (0, 0)) = 2 \<and>
   game_over tiny_game = False \<and>
   apply_move tiny_game (0, 0) = Inr (finished (placed tiny_game (0, 0)), True) \<and>
   game_over (finished (placed tiny_game (0, 0))) \<and>
   apply_move (finished (placed tiny_game (0, 0))) (0, 0) =
     Inr (finished (placed tiny_game (0, 0)), False)"
proof -
  have a: "is_valid_move (placed init_game (0, 0)) 1 1 = Inr False"
    by (simp add: run_defs)
  have b: "game_over (finished (placed tiny_game (0, 0)))"
    by (simp add: run_defs upto_rec1)
  have c: "apply_move tiny_game (0, 0) = Inr (finished (placed tiny_game (0, 0)), True)"
    by (simp add: run_defs upto_rec1)
  have d: "counter (placed init_game (0, 0)) = 2" "game_over tiny_game = False"
    by (simp_all add: run_defs)
  from rejected_move_changes_nothing [of "placed init_game (0, 0)" "(1, 1)"] a
    rejected_move_changes_nothing [of "finished (placed tiny_game (0, 0))" "(0, 0)"] b c d
  show ?thesis by simp
qed

section \<open>\<^verbatim>\<open>has_valid_moves\<close>\<close>

text \<open>
  C5.  \<^verbatim>\<open>has_valid_moves\<close> answers True exactly when no cell was clicked yet, or some
  cell in bounds holds 0 and lies at a knight displacement, \<open>(2, 1)\<close> or \<open>(1, 2)\<close> in
  absolute value, from the last clicked cell.  With no last click the answer is always
  True.  The grid is read at every scanned cell, so the second part is about grids of the
  declared shape.
\<close>

theorem has_valid_moves_scans_knight_cells:
  "(last_clicked s = None \<longrightarrow> has_valid_moves s = Inr True) \<and>
   (well_formed s \<longrightarrow>
      has_valid_moves s =
        Inr (last_clicked s = None \<or>
             (\<exists>l p. last_clicked s = Some l \<and> in_bounds s p \<and> cell s p = 0 \<and>
                    knight_displacement l p)))"
proof (intro conjI impI)
  assume "last_clicked s = None"
  then show "has_valid_moves s = Inr True" by (simp add: has_valid_moves_def)
next
  assume wf: "well_formed s"
  have "(case last_clicked s of
           None \<Rightarrow> True
         | Some l \<Rightarrow> \<exists>p. in_bounds s p \<and> cell s p = 0 \<and> knight_displacement l p)
        \<longleftrightarrow> (last_clicked s = None \<or>
             (\<exists>l p. last_clicked s = Some l \<and> in_bounds s p \<and> cell s p = 0 \<and>
                    knight_displacement l p))"
    by (cases "last_clicked s") simp_all
  with has_valid_moves_result [OF wf]
  show "has_valid_moves s =
        Inr (last_clicked s = None \<or>
             (\<exists>l p. last_clicked s = Some l \<and> in_bounds s p \<and> cell s p = 0 \<and>
                    knight_displacement l p))"
    by simp
qed

theorem has_valid_moves_scans_knight_cells_witness:
  "last_clicked init_game = None \<and>
   has_valid_moves init_game = Inr True \<and>
   well_formed (placed init_game (0, 0)) \<and>
   last_clicked (placed init_game (0, 0)) = Some (0, 0) \<and>
   in_bounds (placed init_game (0, 0)) (2, 1) \<and>
   cell (placed init_game (0, 0)) (2, 1) = 0 \<and>
   knight_displacement (0, 0) (2, 1) \<and>
   has_valid_moves (placed init_game (0, 0)) = Inr True \<and>
   well_formed (finished (placed tiny_game (0, 0))) \<and>
   has_valid_moves (finished (placed tiny_game (0, 0))) = Inr False"
proof -
  have n: "last_clicked init_game = None"
    by (simp add: init_game_def)
  have wf: "well_formed (placed init_game (0, 0))"
    by (intro well_formed_placed) (simp add: init_game_def well_formed_reset_game)
  have a: "last_clicked (placed init_game (0, 0)) = Some (0, 0)"
    "in_bounds (placed init_game (0, 0)) (2, 1)"
    "cell (placed init_game (0, 0)) (2, 1) = 0"
    "knight_displacement (0, 0) (2, 1)"
    by (simp_all add: run_defs upto_rec1)
  have wt: "well_formed (finished (placed tiny_game (0, 0)))"
    by (simp add: run_defs upto_rec1)
  have t: "last_clicked (finished (placed tiny_game (0, 0))) = Some (0, 0)"
    "\<And>p. in_bounds (finished (placed tiny_game (0, 0))) p \<longleftrightarrow> p = (0, 0)"
    "cell (finished (placed tiny_game (0, 0))) (0, 0) = 1"
    by (auto simp add: run_defs upto_rec1)
  from has_valid_moves_scans_knight_cells [of init_game] n
  have 0: "has_valid_moves init_game = Inr True" by simp
  from has_valid_moves_scans_knight_cells [of "placed init_game (0, 0)"] wf a
  have 1: "has_valid_moves (placed init_game (0, 0)) = Inr True" by auto
  from has_valid_moves_scans_knight_cells [of "finished (placed tiny_game (0, 0))"] wt t
  have 2: "has_valid_moves (finished (placed tiny_game (0, 0))) = Inr False" by auto
  from n 0 wf a 1 wt 2 show ?thesis by simp
qed

section \<open>When the game ends\<close>

text \<open>
  C6.  The game-over flag goes from False to True exactly in a click that is accepted
  and after which \<^verbatim>\<open>has_valid_moves\<close> answers False on the new state.  A rejected
  click cannot set it, a game that is over stays over under clicks, and only
  \<^verbatim>\<open>reset_game\<close> clears the flag.
\<close>

theorem game_over_set_exactly_by_stuck_move:
  "(\<forall>s' acc. apply_move s pos = Inr (s', acc) \<longrightarrow>
      ((\<not> game_over s \<and> game_over s') \<longleftrightarrow> (acc \<and> has_valid_moves s' = Inr False)) \<and>
      (game_over s \<longrightarrow> game_over s' \<and> \<not> acc)) \<and>
   \<not> game_over (reset_game s)"
proof (rule conjI)
  show "\<forall>s' acc. apply_move s pos = Inr (s', acc) \<longrightarrow>
      ((\<not> game_over s \<and> game_over s') \<longleftrightarrow> (acc \<and> has_valid_moves s' = Inr False)) \<and>
      (game_over s \<longrightarrow> game_over s' \<and> \<not> acc)"
  proof (intro allI impI)
    fix s' acc assume a: "apply_move s pos = Inr (s', acc)"
    from apply_move_Inr [OF a]
    have 1: "(\<not> game_over s \<and> game_over s') \<longleftrightarrow> (acc \<and> has_valid_moves s' = Inr False)"
      by (elim disjE conjE exE) auto
    from apply_move_Inr [OF a]
    have 2: "game_over s \<longrightarrow> game_over s' \<and> \<not> acc"
      by auto
    from 1 2
    show "((\<not> game_over s \<and> game_over s') \<longleftrightarrow> (acc \<and> has_valid_moves s' = Inr False)) \<and>
      (game_over s \<longrightarrow> game_over s' \<and> \<not> acc)" ..
  qed
next
  show "\<not> game_over (reset_game s)" by simp
qed

theorem game_over_set_exactly_by_stuck_move_witness:
  "apply_move tiny_game (0, 0) = Inr (finished (placed tiny_game (0, 0)), True) \<and>
   \<not> game_over tiny_game \<and>
   game_over (finished (placed tiny_game (0, 0))) \<and>
   has_valid_moves (finished (placed tiny_game (0, 0))) = Inr False \<and>
   apply_move init_game (0, 0) = Inr (placed init_game (0, 0), True) \<and>
   \<not> game_over (placed init_game (0, 0)) \<and>
   has_valid_moves (placed init_game (0, 0)) \<noteq> Inr False \<and>
   apply_move (finished (placed tiny_game (0, 0))) (0, 0) =
     Inr (finished (placed tiny_game (0, 0)), False)"
proof -
  have a: "apply_move tiny_game (0, 0) = Inr (finished (placed tiny_game (0, 0)), True)"
    "\<not> game_over tiny_game" "game_over (finished (placed tiny_game (0, 0)))"
    by (simp_all add: run_defs upto_rec1)
  have b: "apply_move init_game (0, 0) = Inr (placed init_game (0, 0), True)"
    by (rule first_click_0_0)
  have c: "\<not> game_over init_game" "\<not> game_over (placed init_game (0, 0))"
    by (simp_all add: init_game_def)
  have d: "apply_move (finished (placed tiny_game (0, 0))) (0, 0) =
     Inr (finished (placed tiny_game (0, 0)), False)"
    using a(3) by (simp add: apply_move_rejected)
  from game_over_set_exactly_by_stuck_move [of tiny_game "(0, 0)"] a
  have 1: "has_valid_moves (finished (placed tiny_game (0, 0))) = Inr False" by blast
  from game_over_set_exactly_by_stuck_move [of init_game "(0, 0)"] b c
  have 2: "has_valid_moves (placed init_game (0, 0)) \<noteq> Inr False" by blast
  from a b c d 1 2 show ?thesis by simp
qed

section \<open>The counter and the numbers on the grid\<close>

text \<open>
  C7.  In every state the game can reach, a click never fails; it adds exactly 1 to the
  counter when it is accepted and leaves the counter alone when it is rejected.  After
  \<open>k\<close> accepted clicks since the last reset the counter is \<open>k + 1\<close>, the values other than
  0 on the grid are exactly \<open>1, ..., k\<close>, and each of them is in exactly one cell.
\<close>

theorem counter_and_numbering:
  assumes "reachable_after k s"
  shows "(\<forall>pos. \<exists>s' acc. apply_move s pos = Inr (s', acc) \<and>
            counter s' = (if acc then counter s + 1 else counter s)) \<and>
         counter s = int k + 1 \<and>
         well_formed s \<and>
         (\<forall>v. v \<noteq> 0 \<longrightarrow> ((\<exists>p. in_bounds s p \<and> cell s p = v) \<longleftrightarrow> 1 \<le> v \<and> v \<le> int k)) \<and>
         (\<forall>p q. in_bounds s p \<and> in_bounds s q \<and> cell s p = cell s q \<and> cell s p \<noteq> 0
            \<longrightarrow> p = q)"
proof -
  from assms have inv: "game_inv k s" by (rule reachable_after_inv)
  then have wf: "well_formed s" and cnt: "counter s = int k + 1"
    by (simp_all add: game_inv_def)
  have a: "\<forall>pos. \<exists>s' acc. apply_move s pos = Inr (s', acc) \<and>
            counter s' = (if acc then counter s + 1 else counter s)"
    using apply_move_total [OF wf] by blast
  have b: "\<forall>v. v \<noteq> 0 \<longrightarrow> ((\<exists>p. in_bounds s p \<and> cell s p = v) \<longleftrightarrow> 1 \<le> v \<and> v \<le> int k)"
  proof (intro allI impI iffI)
    fix v :: int assume nz: "v \<noteq> 0" and "\<exists>p. in_bounds s p \<and> cell s p = v"
    then obtain p where "in_bounds s p" "cell s p = v" by blast
    with game_inv_range [OF inv, of p] nz show "1 \<le> v \<and> v \<le> int k" by simp
  next
    fix v :: int assume "1 \<le> v \<and> v \<le> int k"
    then show "\<exists>p. in_bounds s p \<and> cell s p = v"
      using game_inv_onto [OF inv, of v] by simp
  qed
  have c: "\<forall>p q. in_bounds s p \<and> in_bounds s q \<and> cell s p = cell s q \<and> cell s p \<noteq> 0
            \<longrightarrow> p = q"
    using game_inv_once [OF inv] by blast
  from a cnt wf b c show ?thesis by (intro conjI)
qed

theorem counter_and_numbering_witness:
  "reachable_after (Suc (Suc 0)) (placed (placed init_game (0, 0)) (2, 1)) \<and>
   counter (placed (placed init_game (0, 0)) (2, 1)) = 3 \<and>
   well_formed (placed (placed init_game (0, 0)) (2, 1)) \<and>
   (\<exists>p. in_bounds (placed (placed init_game (0, 0)) (2, 1)) p \<and>
        cell (placed (placed init_game (0, 0)) (2, 1)) p = 1) \<and>
   (\<exists>p. in_bounds (placed (placed init_game (0, 0)) (2, 1)) p \<and>
        cell (placed (placed init_game (0, 0)) (2, 1)) p = 2) \<and>
   \<not> (\<exists>p. in_bounds (placed (placed init_game (0, 0)) (2, 1)) p \<and>
        cell (placed (placed init_game (0, 0)) (2, 1)) p = 3) \<and>
   apply_move (placed (placed init_game (0, 0)) (2, 1)) (1, 1) =
     Inr (placed (placed init_game (0, 0)) (2, 1), False) \<and>
   (\<exists>s'. apply_move (placed (placed init_game (0, 0)) (2, 1)) (4, 2) = Inr (s', True) \<and>
         counter s' = 4)"
proof -
  let ?s = "placed (placed init_game (0, 0)) (2, 1)"
  have r: "reachable_after (Suc (Suc 0)) ?s" by (rule reachable_second_click)
  have rej: "apply_move ?s (1, 1) = Inr (?s, False)"
    by (rule apply_move_rejected) (simp add: run_defs)
  have acc: "apply_move ?s (4, 2) = Inr (finished (placed ?s (4, 2)), True)"
    by (rule apply_move_accepted)
       (simp_all add: well_formed_placed well_formed_first_click, simp_all add: run_defs upto_rec1)
  note t = counter_and_numbering [OF r]
  note tA = t [THEN conjunct1]
    and tB = t [THEN conjunct2, THEN conjunct1]
    and tC = t [THEN conjunct2, THEN conjunct2, THEN conjunct1]
    and tD = t [THEN conjunct2, THEN conjunct2, THEN conjunct2, THEN conjunct1]
  from tB have c: "counter ?s = 3" by simp
  have e1: "\<exists>p. in_bounds ?s p \<and> cell ?s p = 1"
    using tD [rule_format, of 1] by simp
  have e2: "\<exists>p. in_bounds ?s p \<and> cell ?s p = 2"
    using tD [rule_format, of 2] by simp
  have e3: "\<not> (\<exists>p. in_bounds ?s p \<and> cell ?s p = 3)"
    using tD [rule_format, of 3] by simp
  from tA obtain s' a where sa: "apply_move ?s (4, 2) = Inr (s', a)"
    and cs: "counter s' = (if a then counter ?s + 1 else counter ?s)" by blast
  from trans [OF acc [symmetric] sa] have "s' = finished (placed ?s (4, 2))" "a" by simp_all
  with cs c sa have m: "\<exists>s'. apply_move ?s (4, 2) = Inr (s', True) \<and> counter s' = 4"
    by (intro exI [of _ s']) simp
  note e = e1 e2 e3
  note c = c tC
  from r c e rej m show ?thesis by (intro conjI)
qed

text \<open>
  C10.  In every state the game can reach, a last clicked cell, when there is one, is in
  bounds and holds the counter minus 1, and no cell of the grid holds more.  Right after
  \<^verbatim>\<open>reset_game\<close> there is no last clicked cell and the counter is 1.
\<close>

theorem last_clicked_holds_largest_value:
  "(reachable_after k s \<longrightarrow>
      (\<forall>p. last_clicked s = Some p \<longrightarrow>
           in_bounds s p \<and> cell s p = counter s - 1 \<and>
           (\<forall>q. in_bounds s q \<longrightarrow> cell s q \<le> counter s - 1))) \<and>
   last_clicked (reset_game s) = None \<and> counter (reset_game s) = 1"
proof (intro conjI impI allI)
  fix p assume r: "reachable_after k s" and l: "last_clicked s = Some p"
  from r have inv: "game_inv k s" by (rule reachable_after_inv)
  then have cnt: "counter s = int k + 1" by (simp add: game_inv_def)
  from inv l have "in_bounds s p \<and> cell s p = int k" by (simp add: game_inv_def)
  with cnt show "in_bounds s p" "cell s p = counter s - 1" by simp_all
  fix q assume "in_bounds s q"
  from game_inv_range [OF inv this] cnt show "cell s q \<le> counter s - 1" by simp
qed simp_all

theorem last_clicked_holds_largest_value_witness:
  "reachable_after (Suc (Suc 0)) (placed (placed init_game (0, 0)) (2, 1)) \<and>
   last_clicked (placed (placed init_game (0, 0)) (2, 1)) = Some (2, 1) \<and>
   counter (placed (placed init_game (0, 0)) (2, 1)) = 3 \<and>
   in_bounds (placed (placed init_game (0, 0)) (2, 1)) (2, 1) \<and>
   cell (placed (placed init_game (0, 0)) (2, 1)) (2, 1) = 3 - 1 \<and>
   in_bounds (placed (placed init_game (0, 0)) (2, 1)) (0, 0) \<and>
   cell (placed (placed init_game (0, 0)) (2, 1)) (0, 0) \<le> 3 - 1"
proof -
  let ?s = "placed (placed init_game (0, 0)) (2, 1)"
  have r: "reachable_after (Suc (Suc 0)) ?s" by (rule reachable_second_click)
  have e: "last_clicked ?s = Some (2, 1)" "counter ?s = 3" "in_bounds ?s (0, 0)"
    by (simp_all add: init_game_def in_bounds_def)
  from last_clicked_holds_largest_value [of "Suc (Suc 0)" ?s] r e
  have "in_bounds ?s (2, 1) \<and> cell ?s (2, 1) = 3 - 1 \<and> cell ?s (0, 0) \<le> 3 - 1"
    by simp
  with r e show ?thesis by simp
qed

section \<open>\<^verbatim>\<open>reset_game\<close> from any state\<close>

text \<open>
  C9.  Whatever the state before, \<^verbatim>\<open>reset_game\<close> gives a grid of the declared shape that
  holds 0 everywhere, the counter 1, no last clicked cell, the game-over flag False and
  \<^verbatim>\<open>max_possible_moves\<close> computed by \<^verbatim>\<open>calculate_max_moves\<close> for the size of the grid.
  The size does not change, and in a state the game can reach the value computed anew is
  the one that was stored before.
\<close>

theorem reset_game_gives_fresh_state:
  "grid (reset_game s) = replicate (nat (grid_size_y s)) (replicate (nat (grid_size_x s)) 0) \<and>
   well_formed (reset_game s) \<and>
   (\<forall>p. in_bounds (reset_game s) p \<longrightarrow> cell (reset_game s) p = 0) \<and>
   counter (reset_game s) = 1 \<and>
   last_clicked (reset_game s) = None \<and>
   \<not> game_over (reset_game s) \<and>
   max_possible_moves (reset_game s) = calculate_max_moves (grid_size_y s) (grid_size_x s) \<and>
   grid_size_x (reset_game s) = grid_size_x s \<and>
   grid_size_y (reset_game s) = grid_size_y s \<and>
   (\<forall>k. reachable_after k s \<longrightarrow> max_possible_moves (reset_game s) = max_possible_moves s)"
proof -
  have "\<forall>k. reachable_after k s \<longrightarrow> max_possible_moves (reset_game s) = max_possible_moves s"
  proof (intro allI impI)
    fix k assume "reachable_after k s"
    then have "game_inv k s" by (rule reachable_after_inv)
    then show "max_possible_moves (reset_game s) = max_possible_moves s"
      by (simp add: game_inv_def)
  qed
  moreover have "\<forall>p. in_bounds (reset_game s) p \<longrightarrow> cell (reset_game s) p = 0"
    by (simp add: cell_reset_game)
  ultimately show ?thesis
    by (simp add: grid_reset_game well_formed_reset_game)
qed

theorem reset_game_gives_fresh_state_witness:
  "reachable_after (Suc (Suc 0)) (placed (placed init_game (0, 0)) (2, 1)) \<and>
   in_bounds (reset_game (placed (placed init_game (0, 0)) (2, 1))) (2, 1) \<and>
   cell (placed (placed init_game (0, 0)) (2, 1)) (2, 1) = 2 \<and>
   cell (reset_game (placed (placed init_game (0, 0)) (2, 1))) (2, 1) = 0 \<and>
   counter (reset_game (placed (placed init_game (0, 0)) (2, 1))) = 1 \<and>
   grid (reset_game (placed (placed init_game (0, 0)) (2, 1))) = replicate 10 (replicate 5 0) \<and>
   max_possible_moves (reset_game (placed (placed init_game (0, 0)) (2, 1))) =
     max_possible_moves (placed (placed init_game (0, 0)) (2, 1))"
proof -
  let ?s = "placed (placed init_game (0, 0)) (2, 1)"
  have r: "reachable_after (Suc (Suc 0)) ?s" by (rule reachable_second_click)
  have e: "in_bounds (reset_game ?s) (2, 1)" "cell ?s (2, 1) = 2"
    "grid_size_x ?s = 5" "grid_size_y ?s = 10"
    by (simp_all add: run_defs upto_rec1)
  note t = reset_game_gives_fresh_state [of ?s]
  from t e have 1: "cell (reset_game ?s) (2, 1) = 0" by blast
  from t e have 2: "grid (reset_game ?s) = replicate 10 (replicate 5 0)" by simp
  from t r have 3: "max_possible_moves (reset_game ?s) = max_possible_moves ?s" by blast
  from t have 4: "counter (reset_game ?s) = 1" by blast
  from r e 1 2 3 4 show ?thesis by simp
qed

section \<open>\<^verbatim>\<open>is_valid_move\<close> and the bounds of the grid\<close>

text \<open>
  C1, as stated, fails: \<^verbatim>\<open>is_valid_move\<close> makes no bounds test of its own.  After a click
  on \<open>(1, 0)\<close> in a new game, the position \<open>(-1, 1)\<close> is out of bounds and at a knight
  displacement; the subscript \<open>-1\<close> reads the last row of the grid, where the cell holds 0,
  and \<^verbatim>\<open>is_valid_move\<close> answers True.
\<close>

theorem is_valid_move_wraps_negative_row:
  "apply_move init_game (1, 0) = Inr (placed init_game (1, 0), True) \<and>
   last_clicked (placed init_game (1, 0)) = Some (1, 0) \<and>
   \<not> in_bounds (placed init_game (1, 0)) (- 1, 1) \<and>
   is_valid_move (placed init_game (1, 0)) (- 1) 1 = Inr True"
  by (simp add: run_defs upto_rec1)

text \<open>
  C1, amended.  After the first move, on a grid of the declared shape: for a position in
  bounds \<^verbatim>\<open>is_valid_move\<close> answers True exactly when the cell holds 0 and the displacement
  from the last clicked cell is \<open>(2, 1)\<close> or \<open>(1, 2)\<close> in absolute value; for any position,
  in bounds or not, whose displacement is not a knight's it answers False.  The bounds are
  tested by \<^verbatim>\<open>run\<close> before the call: while the game is not over a click is accepted
  exactly when the position is in bounds, the cell holds 0 and the displacement is a
  knight's.
\<close>

theorem is_valid_move_later_moves:
  assumes "well_formed s" and "last_clicked s = Some l"
  shows "(in_bounds s (row, col) \<longrightarrow>
            is_valid_move s row col =
              Inr (cell s (row, col) = 0 \<and> knight_displacement l (row, col))) \<and>
         (\<not> knight_displacement l (row, col) \<longrightarrow> is_valid_move s row col = Inr False) \<and>
         (\<not> game_over s \<longrightarrow>
            ((\<exists>s'. apply_move s (row, col) = Inr (s', True)) \<longleftrightarrow>
               in_bounds s (row, col) \<and> cell s (row, col) = 0 \<and>
               knight_displacement l (row, col)))"
proof (intro conjI impI)
  assume "in_bounds s (row, col)"
  with assms show "is_valid_move s row col =
      Inr (cell s (row, col) = 0 \<and> knight_displacement l (row, col))"
    by (simp add: is_valid_move_inside)
next
  assume "\<not> knight_displacement l (row, col)"
  with assms(2) show "is_valid_move s row col = Inr False"
    by (rule is_valid_move_no_knight)
next
  assume go: "\<not> game_over s"
  have "in_bounds s (row, col) \<Longrightarrow>
          is_valid_move s row col = Inr True \<longleftrightarrow>
            cell s (row, col) = 0 \<and> knight_displacement l (row, col)"
    using assms by (simp add: is_valid_move_inside)
  with accepted_iff [OF assms(1) go, of "(row, col)"]
  show "(\<exists>s'. apply_move s (row, col) = Inr (s', True)) \<longleftrightarrow>
          in_bounds s (row, col) \<and> cell s (row, col) = 0 \<and> knight_displacement l (row, col)"
    by auto
qed

theorem is_valid_move_later_moves_witness:
  "well_formed (placed init_game (0, 0)) \<and>
   last_clicked (placed init_game (0, 0)) = Some (0, 0) \<and>
   \<not> game_over (placed init_game (0, 0)) \<and>
   in_bounds (placed init_game (0, 0)) (2, 1) \<and>
   is_valid_move (placed init_game (0, 0)) 2 1 = Inr True \<and>
   (\<exists>s'. apply_move (placed init_game (0, 0)) (2, 1) = Inr (s', True)) \<and>
   in_bounds (placed init_game (0, 0)) (1, 1) \<and>
   is_valid_move (placed init_game (0, 0)) 1 1 = Inr False \<and>
   \<not> (\<exists>s'. apply_move (placed init_game (0, 0)) (1, 1) = Inr (s', True)) \<and>
   is_valid_move (placed init_game (0, 0)) 2 2 = Inr False \<and>
   is_valid_move (placed init_game (0, 0)) 0 0 = Inr False \<and>
   is_valid_move (placed init_game (0, 0)) (- 1) (- 1) = Inr False"
proof -
  let ?s = "placed init_game (0, 0)"
  have wf: "well_formed ?s" by (rule well_formed_first_click)
  have l: "last_clicked ?s = Some (0, 0)" by simp
  have e: "\<not> game_over ?s" "in_bounds ?s (2, 1)" "in_bounds ?s (1, 1)"
    "cell ?s (2, 1) = 0"
    "knight_displacement (0, 0) (2, 1)" "\<not> knight_displacement (0, 0) (1, 1)"
    "\<not> knight_displacement (0, 0) (2, 2)" "\<not> knight_displacement (0, 0) (0, 0)"
    "\<not> knight_displacement (0, 0) (- 1, - 1)"
    by (simp_all add: run_defs upto_rec1)
  note t = is_valid_move_later_moves [OF wf l]
  from t [of 2 1] e have 1: "is_valid_move ?s 2 1 = Inr True"
    "\<exists>s'. apply_move ?s (2, 1) = Inr (s', True)" by simp_all
  from t [of 1 1] e have 2: "is_valid_move ?s 1 1 = Inr False"
    "\<not> (\<exists>s'. apply_move ?s (1, 1) = Inr (s', True))" by simp_all
  from t [of 2 2] e have 3: "is_valid_move ?s 2 2 = Inr False" by simp
  from t [of 0 0] e have 4: "is_valid_move ?s 0 0 = Inr False" by simp
  from t [of "- 1" "- 1"] e have 5: "is_valid_move ?s (- 1) (- 1) = Inr False" by simp
  from wf l e 1 2 3 4 5 show ?thesis by simp
qed

text \<open>
  C2, as stated, fails: before the first click \<^verbatim>\<open>is_valid_move\<close> answers True for every
  position, also for one out of bounds such as \<open>(-1, 0)\<close>.
\<close>

theorem is_valid_move_first_move_out_of_bounds:
  "last_clicked init_game = None \<and>
   \<not> in_bounds init_game (- 1, 0) \<and>
   is_valid_move init_game (- 1) 0 = Inr True"
  by (simp add: init_game_def in_bounds_def is_valid_move_def)

text \<open>
  C2, amended.  While no cell was clicked \<^verbatim>\<open>is_valid_move\<close> answers True for every
  position.  The bounds are tested by \<^verbatim>\<open>run\<close> before the call: on a grid of the declared
  shape, while the game is not over, the first click is accepted exactly when the position
  is in bounds.
\<close>

theorem is_valid_move_first_move:
  assumes "last_clicked s = None"
  shows "is_valid_move s row col = Inr True \<and>
         (well_formed s \<and> \<not> game_over s \<longrightarrow>
            ((\<exists>s'. apply_move s (row, col) = Inr (s', True)) \<longleftrightarrow> in_bounds s (row, col)))"
proof (intro conjI impI)
  show v: "is_valid_move s row col = Inr True"
    using assms by (rule is_valid_move_first)
  assume "well_formed s \<and> \<not> game_over s"
  then have wf: "well_formed s" and go: "\<not> game_over s" by simp_all
  from accepted_iff [OF wf go, of "(row, col)"] v
  show "(\<exists>s'. apply_move s (row, col) = Inr (s', True)) \<longleftrightarrow> in_bounds s (row, col)"
    by simp
qed

theorem is_valid_move_first_move_witness:
  "last_clicked init_game = None \<and> well_formed init_game \<and> \<not> game_over init_game \<and>
   is_valid_move init_game 3 4 = Inr True \<and>
   in_bounds init_game (3, 4) \<and>
   (\<exists>s'. apply_move init_game (3, 4) = Inr (s', True)) \<and>
   \<not> in_bounds init_game (10, 0) \<and>
   \<not> (\<exists>s'. apply_move init_game (10, 0) = Inr (s', True))"
proof -
  have n: "last_clicked init_game = None" "well_formed init_game" "\<not> game_over init_game"
    by (simp_all add: init_game_def well_formed_reset_game)
  have e: "in_bounds init_game (3, 4)" "\<not> in_bounds init_game (10, 0)"
    by (simp_all add: init_game_def in_bounds_def)
  note t = is_valid_move_first_move [OF n(1)]
  from t [of 3 4] n e have 1: "is_valid_move init_game 3 4 = Inr True"
    "\<exists>s'. apply_move init_game (3, 4) = Inr (s', True)" by simp_all
  from t [of 10 0] n e have 2: "\<not> (\<exists>s'. apply_move init_game (10, 0) = Inr (s', True))"
    by simp
  from n e 1 2 show ?thesis by simp
qed

text \<open>
  C8, as stated, fails: \<^verbatim>\<open>is_valid_move\<close> alone is not safe on every position.  After a
  click on \<open>(8, 0)\<close> in a new game the position \<open>(10, 1)\<close> is at a knight displacement, the
  grid has no row 10, and the subscript raises \<^verbatim>\<open>IndexError\<close>.
\<close>

theorem is_valid_move_raises_below_grid:
  "apply_move init_game (8, 0) = Inr (placed init_game (8, 0), True) \<and>
   \<not> in_bounds (placed init_game (8, 0)) (10, 1) \<and>
   is_valid_move (placed init_game (8, 0)) 10 1 = Inl IndexError"
  by (simp add: run_defs upto_rec1)

text \<open>
  C8, amended.  On a grid of the declared shape a click, which tests the bounds before it
  calls \<^verbatim>\<open>is_valid_move\<close>, never raises, whatever the two integers of the position are;
  a position out of bounds, negative or too large, is rejected and the state stays as it
  was.  \<^verbatim>\<open>is_valid_move\<close> itself returns an answer, without raising, for every position in
  bounds.
\<close>

theorem apply_move_never_raises:
  assumes "well_formed s"
  shows "(\<exists>s' acc. apply_move s pos = Inr (s', acc)) \<and>
         (\<not> in_bounds s pos \<longrightarrow> apply_move s pos = Inr (s, False)) \<and>
         (in_bounds s pos \<longrightarrow> (\<exists>b. is_valid_move s (fst pos) (snd pos) = Inr b))"
proof (intro conjI impI)
  show "\<exists>s' acc. apply_move s pos = Inr (s', acc)"
    using apply_move_total [OF assms, of pos] by blast
next
  assume "\<not> in_bounds s pos"
  then show "apply_move s pos = Inr (s, False)" by (simp add: apply_move_rejected)
next
  assume ib: "in_bounds s pos"
  show "\<exists>b. is_valid_move s (fst pos) (snd pos) = Inr b"
  proof (cases "last_clicked s")
    case None
    then show ?thesis using is_valid_move_first [of s "fst pos" "snd pos"] by blast
  next
    case (Some l)
    from is_valid_move_inside [OF assms _ Some, of "fst pos" "snd pos"] ib
    show ?thesis by simp
  qed
qed

theorem apply_move_never_raises_witness:
  "well_formed (placed init_game (8, 0)) \<and>
   \<not> in_bounds (placed init_game (8, 0)) (10, 1) \<and>
   apply_move (placed init_game (8, 0)) (10, 1) = Inr (placed init_game (8, 0), False) \<and>
   \<not> in_bounds (placed init_game (8, 0)) (- 1, - 2) \<and>
   apply_move (placed init_game (8, 0)) (- 1, - 2) = Inr (placed init_game (8, 0), False) \<and>
   in_bounds (placed init_game (8, 0)) (9, 2) \<and>
   (\<exists>b. is_valid_move (placed init_game (8, 0)) 9 2 = Inr b)"
proof -
  let ?s = "placed init_game (8, 0)"
  have wf: "well_formed ?s" by (rule well_formed_first_click)
  have e: "\<not> in_bounds ?s (10, 1)" "\<not> in_bounds ?s (- 1, - 2)" "in_bounds ?s (9, 2)"
    by (simp_all add: init_game_def in_bounds_def)
  note t = apply_move_never_raises [OF wf]
  from t [of "(10, 1)"] e have 1: "apply_move ?s (10, 1) = Inr (?s, False)" by blast
  from t [of "(- 1, - 2)"] e have 2: "apply_move ?s (- 1, - 2) = Inr (?s, False)" by blast
  from t [of "(9, 2)"] e have 3: "\<exists>b. is_valid_move ?s 9 2 = Inr b" by simp
  from wf e 1 2 3 show ?thesis by simp
qed

section \<open>\<^verbatim>\<open>calculate_max_moves\<close> and the Warnsdorff procedure\<close>

text \<open>
  C4.  For a grid of at least one row and one column, \<^verbatim>\<open>calculate_max_moves\<close> returns
  the maximum, over all starting cells of the grid, of the length of the tour that
  \<^verbatim>\<open>warnsdorff_tour\<close> builds; and for every starting cell that tour is one of the
  Warnsdorff procedure: started with the visited set \<open>{s}\<close> at \<open>s\<close>, it stops where the
  current cell has no unvisited neighbor in bounds, with the size of the visited set as
  its length, and otherwise moves to an unvisited neighbor with the fewest unvisited
  neighbors of its own.  On the grid of 1 row and 2 columns the result is 1.
\<close>

theorem calculate_max_moves_is_best_warnsdorff_tour:
  assumes "1 \<le> rows" "1 \<le> cols"
  shows "calculate_max_moves rows cols =
           Max (warnsdorff_tour rows cols ` ({0..<rows} \<times> {0..<cols})) \<and>
         (\<forall>s \<in> {0..<rows} \<times> {0..<cols}.
            \<exists>len. spec_warnsdorff_run rows cols {s} s len \<and>
                  warnsdorff_tour rows cols s = int len) \<and>
         calculate_max_moves 1 2 = 1"
proof (intro conjI ballI)
  show "calculate_max_moves rows cols =
      Max (warnsdorff_tour rows cols ` ({0..<rows} \<times> {0..<cols}))"
    using assms by (rule calculate_max_moves_Max)
next
  fix s :: "int \<times> int"
  show "\<exists>len. spec_warnsdorff_run rows cols {s} s len \<and> warnsdorff_tour rows cols s = int len"
    unfolding warnsdorff_tour_def by (rule warnsdorff_loop_run)
next
  show "calculate_max_moves 1 2 = 1" by (rule tour_1_2)
qed

theorem calculate_max_moves_is_best_warnsdorff_tour_witness:
  "(1 :: int) \<le> 3 \<and>
   calculate_max_moves 3 3 = 8 \<and>
   Max (warnsdorff_tour 3 3 ` ({0..<3} \<times> {0..<3})) = 8 \<and>
   (\<exists>len. spec_warnsdorff_run 3 3 {(1, 1)} (1, 1) len \<and> warnsdorff_tour 3 3 (1, 1) = int len) \<and>
   warnsdorff_tour 3 3 (1, 1) = 1 \<and>
   (1 :: int) \<le> 2 \<and>
   calculate_max_moves 1 2 = Max (warnsdorff_tour 1 2 ` ({0..<1} \<times> {0..<2})) \<and>
   calculate_max_moves 1 2 = 1"
proof -
  have h: "(1 :: int) \<le> 3" "(1 :: int) \<le> 2" "(1 :: int) \<le> 1" by simp_all
  note t = calculate_max_moves_is_best_warnsdorff_tour [OF h(1) h(1)]
  note u = calculate_max_moves_is_best_warnsdorff_tour [OF h(3) h(2)]
  from t [THEN conjunct1] tour_3_3
  have 1: "Max (warnsdorff_tour 3 3 ` ({0..<3} \<times> {0..<3})) = 8" by simp
  have "(1, 1) \<in> {0..<3 :: int} \<times> {0..<3 :: int}" by simp
  with t [THEN conjunct2, THEN conjunct1]
  have 2: "\<exists>len. spec_warnsdorff_run 3 3 {(1, 1)} (1, 1) len \<and>
      warnsdorff_tour 3 3 (1, 1) = int len" by (rule bspec)
  have 3: "warnsdorff_tour 3 3 (1, 1) = 1"
    by (simp add: warnsdorff_tour_def warnsdorff_loop.simps get_valid_neighbors_def)
  from h tour_3_3 1 2 3 u [THEN conjunct1] u [THEN conjunct2, THEN conjunct2]
  show ?thesis by (intro conjI)
qed

end
